theory Spec2Isabelle
  imports Main
begin

section \<open>Data model (types.ts)\<close>

text \<open>
  The value of a field typed \<^verbatim>\<open>any\<close> (a tool's input, a tool result's content) is a
  decoded JSON value.
\<close>

datatype json =
    JNull
  | JBool bool
  | JNumber int
  | JString string
  | JArray "json list"
  | JObject "(string \<times> json) list"

text \<open>
  \<^verbatim>\<open>MessageContent = TextContent | ThinkingContent | ImageContent | ToolUse | ToolResult\<close>,
  the union discriminated by the \<^verbatim>\<open>type\<close> field. The arguments are the fields in the
  order of the interfaces: \<^verbatim>\<open>text\<close>; \<^verbatim>\<open>thinking\<close>; \<^verbatim>\<open>source.media_type\<close>,
  \<^verbatim>\<open>source.data\<close>; \<^verbatim>\<open>id\<close>, \<^verbatim>\<open>name\<close>, \<^verbatim>\<open>input\<close>; \<^verbatim>\<open>tool_use_id\<close>,
  \<^verbatim>\<open>content\<close>, \<^verbatim>\<open>is_error?\<close>. The \<^verbatim>\<open>source.type\<close> of an image is the constant
  \<^verbatim>\<open>'base64'\<close>.
\<close>

datatype MessageContent =
    TextContent string
  | ThinkingContent string
  | ImageContent string string
  | ToolUse string string json
  | ToolResult string json "bool option"

datatype Role = User | Assistant

record Message =
  role :: Role
  content :: "MessageContent list"

record Usage =
  input_tokens :: int
  output_tokens :: int
  cache_creation_input_tokens :: "int option"
  cache_read_input_tokens :: "int option"

text \<open>\<^verbatim>\<open>ConversationEntry\<close>; an optional field is an \<open>option\<close>, \<open>None\<close> when it is absent.\<close>

record ConversationEntry =
  entry_id :: "string option"
  timestamp :: "string option"
  message :: Message
  model :: "string option"
  usage :: "Usage option"
  isSidechain :: "bool option"
  parentUuid :: "string option"

text \<open>
  \<^verbatim>\<open>ProcessedMessage = ProcessingWorkflowGroup | BashWorkflowGroup | RegularMessage\<close>.
  Fields in the order of the interfaces:
  \<^verbatim>\<open>assistantMessages, internalProcessing, finalResponse, toolResults, summary, timestamp\<close>;
  \<^verbatim>\<open>bashInput, bashOutput, userComment?, timestamp\<close>; \<^verbatim>\<open>entry\<close>.
\<close>

datatype ProcessedMessage =
    ProcessingWorkflowGroup "ConversationEntry list" "MessageContent list" "MessageContent list"
      "ConversationEntry list" string string
  | BashWorkflowGroup MessageContent ConversationEntry "ConversationEntry option" string
  | RegularMessage ConversationEntry

text \<open>
  Reading a property of \<^verbatim>\<open>undefined\<close> throws a TypeError. An array read past the end
  yields \<^verbatim>\<open>undefined\<close>; every such read in \<^verbatim>\<open>groupMessages\<close> is used as an entry, so
  the model makes the read itself the failure.
\<close>

datatype error = TypeError

definition entryAt :: "'a list \<Rightarrow> nat \<Rightarrow> error + 'a" where
  "entryAt xs k = (if k < length xs then Inr (xs ! k) else Inl TypeError)"

text \<open>\<^verbatim>\<open>x || ''\<close> on an optional string, and the truth value of an optional boolean.\<close>

definition orEmpty :: "string option \<Rightarrow> string" where
  "orEmpty s = (case s of None \<Rightarrow> [] | Some t \<Rightarrow> t)"

definition truthy :: "bool option \<Rightarrow> bool" where
  "truthy b = (case b of None \<Rightarrow> False | Some v \<Rightarrow> v)"

section \<open>Classifier\<close>

fun isText :: "MessageContent \<Rightarrow> bool" where
  "isText (TextContent t) = True"
| "isText c = False"

fun isThinking :: "MessageContent \<Rightarrow> bool" where
  "isThinking (ThinkingContent t) = True"
| "isThinking c = False"

fun isToolUse :: "MessageContent \<Rightarrow> bool" where
  "isToolUse (ToolUse i n inp) = True"
| "isToolUse c = False"

fun isToolResult :: "MessageContent \<Rightarrow> bool" where
  "isToolResult (ToolResult i c e) = True"
| "isToolResult c = False"

definition isToolResultMessage :: "ConversationEntry \<Rightarrow> bool" where
  "isToolResultMessage entry \<longleftrightarrow>
     role (message entry) = User \<and> list_all isToolResult (content (message entry))"

definition hasToolUsage :: "ConversationEntry \<Rightarrow> bool" where
  "hasToolUsage entry \<longleftrightarrow>
     role (message entry) = Assistant \<and> list_ex isToolUse (content (message entry))"

fun isBashToolUse :: "MessageContent \<Rightarrow> bool" where
  "isBashToolUse (ToolUse i n inp) = (n = ''Bash'')"
| "isBashToolUse c = False"

text \<open>
  \<^verbatim>\<open>content.type === 'tool_result' && content.tool_use_id\<close>: a string is truthy iff it
  is not empty.
\<close>

fun hasToolUseId :: "MessageContent \<Rightarrow> bool" where
  "hasToolUseId (ToolResult i c e) = (i \<noteq> [])"
| "hasToolUseId c = False"

definition isBashToolResult :: "ConversationEntry \<Rightarrow> bool" where
  "isBashToolResult entry \<longleftrightarrow>
     isToolResultMessage entry \<and> list_ex hasToolUseId (content (message entry))"

section \<open>separateInternalProcessing\<close>

text \<open>
  \<^verbatim>\<open>lastTextContent\<close> is the last element of the filtered array, and the loop compares
  each item with it by identity (\<^verbatim>\<open>!==\<close>, \<^verbatim>\<open>===\<close>). The items of a decoded content array
  are distinct objects, so an item is identified by its position: \<open>lastTextIndex\<close> is the
  position of the last text item, \<open>None\<close> for \<^verbatim>\<open>null\<close>.
\<close>

fun lastTextFrom :: "nat \<Rightarrow> MessageContent list \<Rightarrow> nat option \<Rightarrow> nat option" where
  "lastTextFrom k [] found = found"
| "lastTextFrom k (c # cs) found =
     lastTextFrom (k + 1) cs (if isText c then Some k else found)"

definition lastTextIndex :: "MessageContent list \<Rightarrow> nat option" where
  "lastTextIndex cs = lastTextFrom 0 cs None"

text \<open>The \<^verbatim>\<open>forEach\<close>; the accumulator is \<^verbatim>\<open>(internalProcessing, finalResponse)\<close>.\<close>

fun separateFrom ::
  "nat option \<Rightarrow> nat \<Rightarrow> MessageContent list \<Rightarrow> MessageContent list \<times> MessageContent list
     \<Rightarrow> MessageContent list \<times> MessageContent list" where
  "separateFrom lastText k [] acc = acc"
| "separateFrom lastText k (c # cs) (internalProcessing, finalResponse) =
     (if isToolUse c \<or> isThinking c \<or> (isText c \<and> Some k \<noteq> lastText)
      then separateFrom lastText (k + 1) cs (internalProcessing @ [c], finalResponse)
      else if Some k = lastText
      then separateFrom lastText (k + 1) cs (internalProcessing, finalResponse @ [c])
      else separateFrom lastText (k + 1) cs (internalProcessing, finalResponse @ [c]))"

definition separateInternalProcessing ::
  "ConversationEntry \<Rightarrow> MessageContent list \<times> MessageContent list" where
  "separateInternalProcessing entry =
     separateFrom (lastTextIndex (content (message entry))) 0 (content (message entry)) ([], [])"

section \<open>generateProcessingSummary\<close>

text \<open>A template literal prints a count in decimal.\<close>

definition digitChar :: "nat \<Rightarrow> char" where
  "digitChar d = ''0123456789'' ! (d mod 10)"

function showNat :: "nat \<Rightarrow> string" where
  "showNat n = (if n < 10 then [digitChar n] else showNat (n div 10) @ [digitChar (n mod 10)])"
  by pat_completeness auto
termination
  by (relation "measure (\<lambda>n. n)") auto

declare showNat.simps [simp del]

text \<open>\<^verbatim>\<open>Array.prototype.join\<close>.\<close>

fun join :: "string \<Rightarrow> string list \<Rightarrow> string" where
  "join sep [] = []"
| "join sep [p] = p"
| "join sep (p # q # ps) = p @ sep @ join sep (q # ps)"

text \<open>
  A \<^verbatim>\<open>Map\<close> keeps its keys in insertion order; \<^verbatim>\<open>set\<close> on a present key replaces the
  value where it stands. \<^verbatim>\<open>entries()\<close> is the list itself and \<^verbatim>\<open>size\<close> its length.
\<close>

fun mapGet :: "('k \<times> 'v) list \<Rightarrow> 'k \<Rightarrow> 'v option" where
  "mapGet [] k = None"
| "mapGet ((k', v') # m) k = (if k' = k then Some v' else mapGet m k)"

fun mapSet :: "('k \<times> 'v) list \<Rightarrow> 'k \<Rightarrow> 'v \<Rightarrow> ('k \<times> 'v) list" where
  "mapSet [] k v = [(k, v)]"
| "mapSet ((k', v') # m) k v = (if k' = k then (k, v) # m else (k', v') # mapSet m k v)"

text \<open>\<^verbatim>\<open>toolCountMap.get(name) || 0\<close>.\<close>

definition orZero :: "nat option \<Rightarrow> nat" where
  "orZero c = (case c of None \<Rightarrow> 0 | Some n \<Rightarrow> n)"

text \<open>\<^verbatim>\<open>content.name || 'Unknown'\<close>, on the items that passed the \<^verbatim>\<open>tool_use\<close> filter.\<close>

fun nameOrUnknown :: "MessageContent \<Rightarrow> string" where
  "nameOrUnknown (ToolUse i n inp) = (if n = [] then ''Unknown'' else n)"
| "nameOrUnknown c = ''Unknown''"

definition toolNames :: "MessageContent list \<Rightarrow> string list" where
  "toolNames internalProcessing = map nameOrUnknown (filter isToolUse internalProcessing)"

fun countNames :: "string list \<Rightarrow> (string \<times> nat) list \<Rightarrow> (string \<times> nat) list" where
  "countNames [] toolCountMap = toolCountMap"
| "countNames (name # names) toolCountMap =
     countNames names (mapSet toolCountMap name (orZero (mapGet toolCountMap name) + 1))"

definition renderTool :: "string \<times> nat \<Rightarrow> string" where
  "renderTool e = (case e of (name, count) \<Rightarrow>
     if count > 1 then name @ ''('' @ showNat count @ '')'' else name)"

definition uniqueTools :: "(string \<times> nat) list \<Rightarrow> string list" where
  "uniqueTools toolCountMap = take 3 (map renderTool toolCountMap)"

text \<open>
  The icons that open the clauses, as the bytes of the source file.
\<close>

definition iconMessages :: string where
  "iconMessages = [CHR 0xEF, CHR 0xA3, CHR 0xBF, CHR 0xC3, CHR 0xBC, CHR 0xC3, CHR 0xAC,
     CHR 0xC3, CHR 0xB9]"

definition iconThinking :: string where
  "iconThinking = [CHR 0xEF, CHR 0xA3, CHR 0xBF, CHR 0xC3, CHR 0xBC, CHR 0xC2, CHR 0xA7,
     CHR 0xC3, CHR 0xAE]"

definition iconTools :: string where
  "iconTools = [CHR 0xEF, CHR 0xA3, CHR 0xBF, CHR 0xC3, CHR 0xBC, CHR 0xC3, CHR 0xAE,
     CHR 0xC3, CHR 0x9F]"

definition iconText :: string where
  "iconText = [CHR 0xEF, CHR 0xA3, CHR 0xBF, CHR 0xC3, CHR 0xBC, CHR 0xC3, CHR 0xAD,
     CHR 0xE2, CHR 0x89, CHR 0xA0]"

definition iconResults :: string where
  "iconResults = [CHR 0xEF, CHR 0xA3, CHR 0xBF, CHR 0xC3, CHR 0xBC, CHR 0xC3, CHR 0xAC,
     CHR 0xE2, CHR 0x80, CHR 0xA2]"

definition plural :: "nat \<Rightarrow> string" where
  "plural n = (if n > 1 then ''s'' else [])"

text \<open>The body of \<^verbatim>\<open>if (toolCount > 0)\<close>: the value of \<^verbatim>\<open>toolPart\<close> that is pushed.\<close>

definition toolPart :: "MessageContent list \<Rightarrow> string" where
  "toolPart internalProcessing =
     (let toolCount = length (filter isToolUse internalProcessing);
          toolCountMap = countNames (toolNames internalProcessing) [];
          shown = uniqueTools toolCountMap;
          part = iconTools @ '' '' @ showNat toolCount @ '' tool'' @ plural toolCount @ '': ''
                   @ join '', '' shown
      in if length shown < length toolCountMap
         then part @ '' +'' @ showNat (length toolCountMap - length shown) @ '' more''
         else part)"

text \<open>
  The third parameter has the default \<^verbatim>\<open>1\<close>; the only call, in \<^verbatim>\<open>groupMessages\<close>,
  passes \<^verbatim>\<open>assistantMessages.length\<close>.
\<close>

definition generateProcessingSummary ::
  "MessageContent list \<Rightarrow> ConversationEntry list \<Rightarrow> nat \<Rightarrow> string" where
  "generateProcessingSummary internalProcessing subsequentToolResults assistantMessageCount =
     (let toolCount = length (filter isToolUse internalProcessing);
          thinkingCount = length (filter isThinking internalProcessing);
          textCount = length (filter isText internalProcessing);
          parts0 = (if assistantMessageCount > 1
                    then [iconMessages @ '' '' @ showNat assistantMessageCount
                            @ '' assistant messages'']
                    else []);
          parts1 = (if thinkingCount > 0
                    then parts0 @ [iconThinking @ '' '' @ showNat thinkingCount
                            @ '' thinking step'' @ plural thinkingCount]
                    else parts0);
          parts2 = (if toolCount > 0 then parts1 @ [toolPart internalProcessing] else parts1);
          parts3 = (if textCount > 0
                    then parts2 @ [iconText @ '' '' @ showNat textCount
                            @ '' intermediate response'' @ plural textCount]
                    else parts2);
          toolResultCount = length subsequentToolResults;
          parts4 = (if toolResultCount > 0
                    then parts3 @ [iconResults @ '' '' @ showNat toolResultCount
                            @ '' result'' @ plural toolResultCount]
                    else parts3)
      in if length parts4 > 0 then join '', '' parts4 else ''Processing steps'')"

section \<open>groupMessages\<close>

text \<open>
  The inner \<^verbatim>\<open>while (j < entries.length)\<close>: it returns \<^verbatim>\<open>assistantMessages\<close>,
  \<^verbatim>\<open>toolResults\<close> and the \<^verbatim>\<open>j\<close> it stopped at.
\<close>

function collect ::
  "ConversationEntry list \<Rightarrow> nat \<Rightarrow> ConversationEntry list \<Rightarrow> ConversationEntry list
     \<Rightarrow> error + (ConversationEntry list \<times> ConversationEntry list \<times> nat)" where
  "collect entries j assistantMessages toolResults =
     (if j < length entries then
        (case entryAt entries j of
           Inl e \<Rightarrow> Inl e
         | Inr currentEntry \<Rightarrow>
             if role (message currentEntry) = Assistant
             then collect entries (j + 1) (assistantMessages @ [currentEntry]) toolResults
             else if isToolResultMessage currentEntry
             then collect entries (j + 1) assistantMessages (toolResults @ [currentEntry])
             else Inr (assistantMessages, toolResults, j))
      else Inr (assistantMessages, toolResults, j))"
  by pat_completeness auto
termination
  by (relation "measure (\<lambda>(entries, j, a, t). length entries - j)") auto

declare collect.simps [simp del]

text \<open>
  The inner \<^verbatim>\<open>msgFinalResponse.forEach\<close> of an assistant message that is not the last;
  the accumulator is \<^verbatim>\<open>(allInternalProcessing, finalResponse)\<close>.
\<close>

fun reclassify ::
  "MessageContent list \<Rightarrow> MessageContent list \<times> MessageContent list
     \<Rightarrow> MessageContent list \<times> MessageContent list" where
  "reclassify [] acc = acc"
| "reclassify (c # cs) (allInternalProcessing, finalResponse) =
     (if isText c then reclassify cs (allInternalProcessing @ [c], finalResponse)
      else reclassify cs (allInternalProcessing, finalResponse @ [c]))"

text \<open>
  \<^verbatim>\<open>assistantMessages.forEach((assistantMsg, index) => ...)\<close>, with \<open>n\<close> the length of
  \<^verbatim>\<open>assistantMessages\<close>. At the last index \<^verbatim>\<open>finalResponse\<close> is assigned, not extended.
\<close>

fun processFrom ::
  "nat \<Rightarrow> nat \<Rightarrow> ConversationEntry list \<Rightarrow> MessageContent list \<times> MessageContent list
     \<Rightarrow> MessageContent list \<times> MessageContent list" where
  "processFrom n index [] acc = acc"
| "processFrom n index (assistantMsg # rest) (allInternalProcessing, finalResponse) =
     (case separateInternalProcessing assistantMsg of
        (internalProcessing, msgFinalResponse) \<Rightarrow>
          if index + 1 = n
          then processFrom n (index + 1) rest
                 (allInternalProcessing @ internalProcessing, msgFinalResponse)
          else processFrom n (index + 1) rest
                 (reclassify msgFinalResponse
                    (allInternalProcessing @ internalProcessing, finalResponse)))"

definition processAssistantMessages ::
  "ConversationEntry list \<Rightarrow> MessageContent list \<times> MessageContent list" where
  "processAssistantMessages assistantMessages =
     processFrom (length assistantMessages) 0 assistantMessages ([], [])"

text \<open>\<^verbatim>\<open>i + 1 < entries.length && this.isBashToolResult(entries[i + 1])\<close>.\<close>

definition bashResultFollows :: "ConversationEntry list \<Rightarrow> nat \<Rightarrow> error + bool" where
  "bashResultFollows entries i =
     (if i + 1 < length entries
      then (case entryAt entries (i + 1) of
              Inl e \<Rightarrow> Inl e
            | Inr next \<Rightarrow> Inr (isBashToolResult next))
      else Inr False)"

text \<open>
  The body of the bash branch: the group that is pushed and the new value of \<^verbatim>\<open>i\<close>.
\<close>

definition bashBranch ::
  "ConversationEntry list \<Rightarrow> nat \<Rightarrow> ConversationEntry \<Rightarrow> MessageContent
     \<Rightarrow> error + (ProcessedMessage \<times> nat)" where
  "bashBranch entries i entry bashToolUse =
     (case entryAt entries (i + 1) of
        Inl e \<Rightarrow> Inl e
      | Inr bashOutput \<Rightarrow>
          let nextIndex = i + 2 in
          if nextIndex < length entries then
            (case entryAt entries nextIndex of
               Inl e \<Rightarrow> Inl e
             | Inr comment \<Rightarrow>
                 if role (message comment) = User \<and> \<not> isToolResultMessage comment
                    \<and> \<not> truthy (isSidechain comment)
                 then Inr (BashWorkflowGroup bashToolUse bashOutput (Some comment)
                             (orEmpty (timestamp entry)), i + 3)
                 else Inr (BashWorkflowGroup bashToolUse bashOutput None
                             (orEmpty (timestamp entry)), nextIndex))
          else Inr (BashWorkflowGroup bashToolUse bashOutput None
                      (orEmpty (timestamp entry)), nextIndex))"

text \<open>
  The regular assistant processing: the group that is pushed and the new value of
  \<^verbatim>\<open>i\<close>, which is \<^verbatim>\<open>j\<close>.
\<close>

definition assistantBranch ::
  "ConversationEntry list \<Rightarrow> nat \<Rightarrow> error + (ProcessedMessage \<times> nat)" where
  "assistantBranch entries i =
     (case collect entries i [] [] of
        Inl e \<Rightarrow> Inl e
      | Inr (assistantMessages, toolResults, j) \<Rightarrow>
          (case processAssistantMessages assistantMessages of
             (allInternalProcessing, finalResponse) \<Rightarrow>
               if length allInternalProcessing > 0 \<or> length assistantMessages > 1 then
                 (case entryAt assistantMessages 0 of
                    Inl e \<Rightarrow> Inl e
                  | Inr first \<Rightarrow>
                      Inr (ProcessingWorkflowGroup assistantMessages allInternalProcessing
                             finalResponse toolResults
                             (generateProcessingSummary allInternalProcessing toolResults
                                (length assistantMessages))
                             (orEmpty (timestamp first)), j))
               else
                 (case entryAt assistantMessages 0 of
                    Inl e \<Rightarrow> Inl e
                  | Inr first \<Rightarrow> Inr (RegularMessage first, j))))"

text \<open>One iteration of the outer \<^verbatim>\<open>while (i < entries.length)\<close>.\<close>

definition groupStep ::
  "ConversationEntry list \<Rightarrow> nat \<Rightarrow> error + (ProcessedMessage \<times> nat)" where
  "groupStep entries i =
     (case entryAt entries i of
        Inl e \<Rightarrow> Inl e
      | Inr entry \<Rightarrow>
          if role (message entry) = Assistant then
            (case find isBashToolUse (content (message entry)) of
               Some bashToolUse \<Rightarrow>
                 (case bashResultFollows entries i of
                    Inl e \<Rightarrow> Inl e
                  | Inr True \<Rightarrow> bashBranch entries i entry bashToolUse
                  | Inr False \<Rightarrow> assistantBranch entries i)
             | None \<Rightarrow> assistantBranch entries i)
          else Inr (RegularMessage entry, i + 1))"

section \<open>Vocabulary of the properties\<close>

text \<open>
  The definitions of this section are not code of the repository: they name the conditions
  and the pieces of the input that the theorems speak about.
\<close>

text \<open>\<^verbatim>\<open>currentEntry.message.role === 'assistant'\<close>.\<close>

definition isAssistantEntry :: "ConversationEntry \<Rightarrow> bool" where
  "isAssistantEntry e \<longleftrightarrow> role (message e) = Assistant"

text \<open>An entry that the inner loop collects: an assistant entry or a tool-result message.\<close>

definition absorbable :: "ConversationEntry \<Rightarrow> bool" where
  "absorbable e \<longleftrightarrow> role (message e) = Assistant \<or> isToolResultMessage e"

text \<open>The maximal run of entries, from index \<open>j\<close> on, that the inner loop collects.\<close>

definition run :: "ConversationEntry list \<Rightarrow> nat \<Rightarrow> ConversationEntry list" where
  "run entries j = takeWhile absorbable (drop j entries)"

text \<open>
  What an assistant message that is not the last of its run adds to
  \<^verbatim>\<open>allInternalProcessing\<close>: its internal processing, then the text items of its own
  final response.
\<close>

definition earlierPart :: "ConversationEntry \<Rightarrow> MessageContent list" where
  "earlierPart m = fst (separateInternalProcessing m) @ filter isText (snd (separateInternalProcessing m))"

text \<open>An entry with the given role and content, every optional field absent.\<close>

definition entryOf :: "Role \<Rightarrow> MessageContent list \<Rightarrow> ConversationEntry" where
  "entryOf r cs = \<lparr>entry_id = None, timestamp = None, message = \<lparr>role = r, content = cs\<rparr>,
     model = None, usage = None, isSidechain = None, parentUuid = None\<rparr>"

text \<open>The test that attaches \<^verbatim>\<open>entries[i + 2]\<close> to a bash workflow as user comment.\<close>

definition commentFollows :: "ConversationEntry list \<Rightarrow> nat \<Rightarrow> bool" where
  "commentFollows entries i \<longleftrightarrow>
     i + 2 < length entries \<and> role (message (entries ! (i + 2))) = User
     \<and> \<not> isToolResultMessage (entries ! (i + 2)) \<and> \<not> truthy (isSidechain (entries ! (i + 2)))"

text \<open>The bash branch is taken at index \<open>i\<close>.\<close>

definition bashFires :: "ConversationEntry list \<Rightarrow> nat \<Rightarrow> bool" where
  "bashFires entries i \<longleftrightarrow>
     i + 1 < length entries \<and> role (message (entries ! i)) = Assistant
     \<and> find isBashToolUse (content (message (entries ! i))) \<noteq> None
     \<and> isBashToolResult (entries ! (i + 1))"

text \<open>The distinct elements of a list, in the order of their first occurrence.\<close>

fun firstSeen :: "'a list \<Rightarrow> 'a list" where
  "firstSeen [] = []"
| "firstSeen (x # xs) = x # filter (\<lambda>y. y \<noteq> x) (firstSeen xs)"

text \<open>
  How a tool name is shown, given the list of all tool names: with its count when it occurs
  more than once.
\<close>

definition renderName:: "string list \<Rightarrow> string \<Rightarrow> string" where
  "renderName names n =
     (if count_list names n > 1 then n @ ''('' @ showNat (count_list names n) @ '')'' else n)"

text \<open>
  The consecutive entries that one iteration reads to build a group: a regular message
  comes from its entry, followed in the collapsed case of an assistant entry by the
  tool-result messages that the run had collected; a bash workflow from the assistant entry
  whose first Bash tool use is \<^verbatim>\<open>bashInput\<close>, the output entry and the optional comment; a
  processing workflow from a run whose assistant entries and other entries are, in order,
  \<^verbatim>\<open>assistantMessages\<close> and \<^verbatim>\<open>toolResults\<close>.
\<close>

fun builtFrom :: "ProcessedMessage \<Rightarrow> ConversationEntry list \<Rightarrow> bool" where
  "builtFrom (RegularMessage e) seg =
     (case seg of
        [] \<Rightarrow> False
      | first # dropped \<Rightarrow>
          first = e \<and> (dropped = [] \<or> isAssistantEntry e \<and> list_all isToolResultMessage dropped))"
| "builtFrom (BashWorkflowGroup bashInput bashOutput userComment ts) seg =
     (case seg of
        a # out # rest \<Rightarrow>
          isAssistantEntry a \<and> find isBashToolUse (content (message a)) = Some bashInput
          \<and> out = bashOutput \<and> rest = (case userComment of None \<Rightarrow> [] | Some u \<Rightarrow> [u])
          \<and> ts = orEmpty (timestamp a)
      | _ \<Rightarrow> False)"
| "builtFrom (ProcessingWorkflowGroup assistantMessages internalProcessing finalResponse
      toolResults summary ts) seg =
     (filter isAssistantEntry seg = assistantMessages
      \<and> filter (\<lambda>e. \<not> isAssistantEntry e) seg = toolResults
      \<and> list_all absorbable seg)"

text \<open>
  The cursors of the scan: the values that \<open>i\<close> takes at the head of the outer loop. The
  scan starts at \<open>0\<close>, and from a cursor inside the array it goes to the cursor that the
  iteration returns.
\<close>

inductive reached :: "ConversationEntry list \<Rightarrow> nat \<Rightarrow> bool" where
  cursor_start: "reached entries 0"
| cursor_step: "reached entries i \<Longrightarrow> i < length entries \<Longrightarrow> groupStep entries i = Inr (g, i')
           \<Longrightarrow> reached entries i'"

text \<open>The names of the tool uses of a content list, as the items carry them, in order.\<close>

fun itemNames :: "MessageContent list \<Rightarrow> string list" where
  "itemNames [] = []"
| "itemNames (ToolUse i n inp # cs) = n # itemNames cs"
| "itemNames (c # cs) = itemNames cs"

text \<open>
  The names under which the tool uses are counted: the name of the item, and
  \<^verbatim>\<open>Unknown\<close> for an item whose name is empty.
\<close>

definition countedNames :: "MessageContent list \<Rightarrow> string list" where
  "countedNames internalProcessing =
     map (\<lambda>n. if n = [] then ''Unknown'' else n) (itemNames internalProcessing)"

section \<open>The outer loop\<close>

subsection \<open>Each iteration advances the cursor\<close>

lemma collect_bounds:
  "collect entries j a t = Inr (a', t', j') \<Longrightarrow> j \<le> j'"
proof (induction entries j a t rule: collect.induct)
  case (1 entries j a t)
  show ?case
  proof (cases "j < length entries")
    case False
    with "1.prems" show ?thesis by (simp add: collect.simps)
  next
    case True
    note lt = True
    have at: "entryAt entries j = Inr (entries ! j)" using lt by (simp add: entryAt_def)
    show ?thesis
    proof (cases "role (message (entries ! j)) = Assistant")
      case True
      with "1.prems" lt at have "collect entries (j + 1) (a @ [entries ! j]) t = Inr (a', t', j')"
        by (simp add: collect.simps)
      with "1.IH"(1)[OF lt at True] show ?thesis by simp
    next
      case False
      note na = False
      show ?thesis
      proof (cases "isToolResultMessage (entries ! j)")
        case True
        with "1.prems" lt at na
        have "collect entries (j + 1) a (t @ [entries ! j]) = Inr (a', t', j')"
          by (simp add: collect.simps)
        with "1.IH"(2)[OF lt at na True] show ?thesis by simp
      next
        case False
        with "1.prems" lt at na show ?thesis by (simp add: collect.simps)
      qed
    qed
  qed
qed

lemma collect_assistant_advances:
  assumes "j < length entries" and "role (message (entries ! j)) = Assistant"
    and "collect entries j a t = Inr (a', t', j')"
  shows "j < j'"
proof -
  from assms have "collect entries (j + 1) (a @ [entries ! j]) t = Inr (a', t', j')"
    by (simp add: collect.simps entryAt_def)
  from collect_bounds[OF this] show ?thesis by simp
qed

lemma bashBranch_advances:
  "bashBranch entries i entry b = Inr (g, i') \<Longrightarrow> i < i'"
  by (auto simp: bashBranch_def Let_def split: sum.splits if_splits)

lemma assistantBranch_advances:
  assumes "i < length entries" and "role (message (entries ! i)) = Assistant"
    and "assistantBranch entries i = Inr (g, i')"
  shows "i < i'"
proof -
  from assms(3) obtain a t where "collect entries i [] [] = Inr (a, t, i')"
    by (auto simp: assistantBranch_def split: sum.splits prod.splits if_splits)
  from collect_assistant_advances[OF assms(1,2) this] show ?thesis .
qed

lemma groupStep_advances:
  assumes "i < length entries" and "groupStep entries i = Inr (g, i')"
  shows "i < i'"
proof -
  have at: "entryAt entries i = Inr (entries ! i)" using assms(1) by (simp add: entryAt_def)
  show ?thesis
  proof (cases "role (message (entries ! i)) = Assistant")
    case False
    with assms(2) at show ?thesis by (simp add: groupStep_def)
  next
    case True
    with assms(2) at
    have "(\<exists>b. bashBranch entries i (entries ! i) b = Inr (g, i'))
            \<or> assistantBranch entries i = Inr (g, i')"
      by (auto simp: groupStep_def split: option.splits sum.splits bool.splits)
    then show ?thesis
      using bashBranch_advances assistantBranch_advances[OF assms(1) True] by blast
  qed
qed

text \<open>
  The outer loop, with \<^verbatim>\<open>processedMessages\<close> as accumulator. The measure
  \<open>length entries - i\<close> decreases because an iteration advances \<open>i\<close>.
\<close>

function groupLoop ::
  "ConversationEntry list \<Rightarrow> nat \<Rightarrow> ProcessedMessage list \<Rightarrow> error + ProcessedMessage list" where
  "groupLoop entries i processedMessages =
     (if i < length entries then
        (case groupStep entries i of
           Inl e \<Rightarrow> Inl e
         | Inr (g, i') \<Rightarrow> groupLoop entries i' (processedMessages @ [g]))
      else Inr processedMessages)"
  by pat_completeness auto
termination
proof (relation "measure (\<lambda>(entries, i, p). length entries - i)")
  show "wf (measure (\<lambda>(entries, i, p). length entries - i))" by simp
next
  fix entries :: "ConversationEntry list" and i :: nat and processedMessages :: "ProcessedMessage list"
    and x2 :: "ProcessedMessage \<times> nat" and g i'
  assume "i < length entries" and "groupStep entries i = Inr x2" and "(g, i') = x2"
  then have "i < i'" using groupStep_advances[of i entries g i'] by simp
  with \<open>i < length entries\<close>
  show "((entries, i', processedMessages @ [g]), (entries, i, processedMessages))
          \<in> measure (\<lambda>(entries, i, p). length entries - i)"
    by simp
qed

declare groupLoop.simps [simp del]

definition groupMessages :: "ConversationEntry list \<Rightarrow> error + ProcessedMessage list" where
  "groupMessages entries = groupLoop entries 0 []"

section \<open>What the loops compute\<close>

lemma entryAt_lt: "k < length xs \<Longrightarrow> entryAt xs k = Inr (xs ! k)"
  by (simp add: entryAt_def)

lemma run_step:
  "j < length entries \<Longrightarrow>
     run entries j = (if absorbable (entries ! j) then entries ! j # run entries (j + 1) else [])"
  by (simp add: run_def Cons_nth_drop_Suc[symmetric])

lemma run_end: "\<not> j < length entries \<Longrightarrow> run entries j = []"
  by (simp add: run_def)

lemma collect_eq:
  "collect entries j a t =
     Inr (a @ filter isAssistantEntry (run entries j),
          t @ filter (\<lambda>e. \<not> isAssistantEntry e) (run entries j),
          j + length (run entries j))"
proof (induction entries j a t rule: collect.induct)
  case (1 entries j a t)
  show ?case
  proof (cases "j < length entries")
    case False
    then show ?thesis by (simp add: collect.simps run_end)
  next
    case True
    note lt = True
    note at = entryAt_lt[OF lt]
    show ?thesis
    proof (cases "role (message (entries ! j)) = Assistant")
      case True
      then have "isAssistantEntry (entries ! j)" "absorbable (entries ! j)"
        by (simp_all add: isAssistantEntry_def absorbable_def)
      with "1.IH"(1)[OF lt at True] lt True show ?thesis
        by (subst collect.simps) (simp add: at run_step)
    next
      case False
      note na = False
      show ?thesis
      proof (cases "isToolResultMessage (entries ! j)")
        case True
        with na have "\<not> isAssistantEntry (entries ! j)" "absorbable (entries ! j)"
          by (simp_all add: isAssistantEntry_def absorbable_def)
        with "1.IH"(2)[OF lt at na True] lt na True show ?thesis
          by (subst collect.simps) (simp add: at run_step)
      next
        case False
        with lt na show ?thesis
          by (subst collect.simps) (simp add: at run_step absorbable_def)
      qed
    qed
  qed
qed

lemma reclassify_eq:
  "reclassify cs (a, f) = (a @ filter isText cs, f @ filter (\<lambda>c. \<not> isText c) cs)"
  by (induction cs arbitrary: a f) auto

lemma processFrom_eq:
  "ms \<noteq> [] \<Longrightarrow> index + length ms = n \<Longrightarrow>
     processFrom n index ms (a, f) =
       (a @ concat (map earlierPart (butlast ms)) @ fst (separateInternalProcessing (last ms)),
        snd (separateInternalProcessing (last ms)))"
proof (induction ms arbitrary: index a f)
  case Nil
  then show ?case by simp
next
  case (Cons m ms)
  show ?case
  proof (cases "ms = []")
    case True
    with Cons.prems show ?thesis by (simp add: split_beta)
  next
    case False
    with Cons.prems have ne: "index + 1 \<noteq> n" by (cases ms) auto
    from Cons.prems have "(index + 1) + length ms = n" by simp
    from Cons.IH[OF False this] False ne show ?thesis
      by (simp add: split_beta reclassify_eq earlierPart_def)
  qed
qed

lemma processAssistantMessages_eq:
  "ms \<noteq> [] \<Longrightarrow>
     processAssistantMessages ms =
       (concat (map earlierPart (butlast ms)) @ fst (separateInternalProcessing (last ms)),
        snd (separateInternalProcessing (last ms)))"
  using processFrom_eq[of ms 0 "length ms" "[]" "[]"] by (simp add: processAssistantMessages_def)

lemma find_first:
  "\<forall>x\<in>set pre. \<not> P x \<Longrightarrow> P b \<Longrightarrow> find P (pre @ b # post) = Some b"
  by (induction pre) auto

lemma bashBranch_eq:
  assumes "i + 1 < length entries"
  shows "bashBranch entries i entry b =
     Inr (BashWorkflowGroup b (entries ! (i + 1))
            (if commentFollows entries i then Some (entries ! (i + 2)) else None)
            (orEmpty (timestamp entry)),
          if commentFollows entries i then i + 3 else i + 2)"
  using assms by (simp add: bashBranch_def entryAt_def commentFollows_def Let_def)

lemma groupStep_bash:
  assumes "bashFires entries i"
    and "find isBashToolUse (content (message (entries ! i))) = Some b"
  shows "groupStep entries i =
     Inr (BashWorkflowGroup b (entries ! (i + 1))
            (if commentFollows entries i then Some (entries ! (i + 2)) else None)
            (orEmpty (timestamp (entries ! i))),
          if commentFollows entries i then i + 3 else i + 2)"
proof -
  from assms(1) have lt: "i + 1 < length entries" and r: "role (message (entries ! i)) = Assistant"
    and br: "isBashToolResult (entries ! (i + 1))"
    by (simp_all add: bashFires_def)
  have "groupStep entries i = bashBranch entries i (entries ! i) b"
    using lt r br assms(2) by (simp add: groupStep_def entryAt_def bashResultFollows_def)
  then show ?thesis using bashBranch_eq[OF lt] by simp
qed

lemma groupStep_pass:
  assumes "i < length entries" and "role (message (entries ! i)) \<noteq> Assistant"
  shows "groupStep entries i = Inr (RegularMessage (entries ! i), i + 1)"
  using assms by (simp add: groupStep_def entryAt_def)

lemma groupStep_assistant:
  assumes "i < length entries" and "role (message (entries ! i)) = Assistant"
    and "\<not> bashFires entries i"
  shows "groupStep entries i = assistantBranch entries i"
  using assms
  by (auto simp: groupStep_def entryAt_def bashResultFollows_def bashFires_def
           split: option.splits)

lemma run_assistant:
  assumes "i < length entries" and "role (message (entries ! i)) = Assistant"
  shows "run entries i = entries ! i # run entries (i + 1)"
  using assms by (simp add: run_step absorbable_def)

lemma assistantBranch_eq:
  assumes "i < length entries" and "role (message (entries ! i)) = Assistant"
  shows "assistantBranch entries i =
     Inr (let assistantMessages = filter isAssistantEntry (run entries i);
              toolResults = filter (\<lambda>e. \<not> isAssistantEntry e) (run entries i);
              processed = processAssistantMessages assistantMessages
          in if fst processed \<noteq> [] \<or> length assistantMessages > 1
             then ProcessingWorkflowGroup assistantMessages (fst processed) (snd processed)
                    toolResults
                    (generateProcessingSummary (fst processed) toolResults
                       (length assistantMessages))
                    (orEmpty (timestamp (entries ! i)))
             else RegularMessage (entries ! i),
          i + length (run entries i))"
proof -
  have a: "isAssistantEntry (entries ! i)" using assms(2) by (simp add: isAssistantEntry_def)
  have hd: "filter isAssistantEntry (run entries i)
              = entries ! i # filter isAssistantEntry (run entries (i + 1))"
    using run_assistant[OF assms] a by simp
  show ?thesis
    unfolding assistantBranch_def collect_eq
    by (auto simp: hd entryAt_def Let_def split_beta)
qed

lemma run_length: "i + length (run entries i) \<le> max i (length entries)"
proof -
  have "length (run entries i) \<le> length (drop i entries)"
    unfolding run_def by (rule length_takeWhile_le)
  then show ?thesis by simp
qed

lemma groupStep_total:
  assumes "i < length entries"
  shows "\<exists>g i'. groupStep entries i = Inr (g, i') \<and> i < i' \<and> i' \<le> length entries"
proof (cases "role (message (entries ! i)) = Assistant")
  case False
  with assms show ?thesis by (simp add: groupStep_pass)
next
  case True
  note r = True
  show ?thesis
  proof (cases "bashFires entries i")
    case True
    then obtain b where b: "find isBashToolUse (content (message (entries ! i))) = Some b"
      by (auto simp: bashFires_def)
    from True have "i + 1 < length entries" by (simp add: bashFires_def)
    then show ?thesis
      unfolding groupStep_bash[OF True b] by (auto simp: commentFollows_def)
  next
    case False
    have "i + length (run entries i) \<le> length entries"
      using run_length[of i entries] assms by simp
    moreover have "i < i + length (run entries i)"
      using run_assistant[OF assms r] by simp
    ultimately show ?thesis
      unfolding groupStep_assistant[OF assms r False] assistantBranch_eq[OF assms r]
      by simp
  qed
qed

lemma groupLoop_total:
  "i \<le> length entries \<Longrightarrow>
     \<exists>new. groupLoop entries i acc = Inr (acc @ new) \<and> length new \<le> length entries - i"
proof (induction entries i acc rule: groupLoop.induct)
  case (1 entries i acc)
  show ?case
  proof (cases "i < length entries")
    case False
    then show ?thesis by (simp add: groupLoop.simps)
  next
    case True
    from groupStep_total[OF True] obtain g i'
      where st: "groupStep entries i = Inr (g, i')" and adv: "i < i'" and le: "i' \<le> length entries"
      by blast
    from "1.IH"[OF True st refl le] obtain new
      where new: "groupLoop entries i' (acc @ [g]) = Inr ((acc @ [g]) @ new)"
        and len: "length new \<le> length entries - i'"
      by blast
    have "groupLoop entries i acc = Inr (acc @ (g # new))"
      using True st new by (subst groupLoop.simps) simp
    moreover have "length (g # new) \<le> length entries - i"
      using len adv le by simp
    ultimately show ?thesis by blast
  qed
qed

section \<open>Termination and absence of faults\<close>

text \<open>
  C8: for every finite entry sequence \<^verbatim>\<open>groupMessages\<close> terminates. Every iteration of
  the scan, at a cursor \<open>i\<close> inside the array, takes one branch, which yields one group
  and a new cursor \<open>i'\<close> with \<open>i < i'\<close> (at most the length of the array); an
  iteration pushes exactly one group, so the number of groups returned is the number of
  iterations, and it is at most the number of entries.
\<close>

theorem groupMessages_terminates:
  "(\<forall>i<length entries. \<exists>g i'. groupStep entries i = Inr (g, i') \<and> i < i' \<and> i' \<le> length entries)
   \<and> (\<exists>groups. groupMessages entries = Inr groups \<and> length groups \<le> length entries)"
proof
  show "\<forall>i<length entries. \<exists>g i'. groupStep entries i = Inr (g, i') \<and> i < i' \<and> i' \<le> length entries"
    using groupStep_total by blast
next
  from groupLoop_total[of 0 entries "[]"]
  show "\<exists>groups. groupMessages entries = Inr groups \<and> length groups \<le> length entries"
    by (simp add: groupMessages_def)
qed

theorem groupMessages_terminates_witness:
  "(\<exists>g i'. groupStep [entryOf User [TextContent ''hi'']] 0 = Inr (g, i') \<and> 0 < i' \<and> i' \<le> 1)
   \<and> (\<exists>groups. groupMessages [entryOf User [TextContent ''hi'']] = Inr groups
         \<and> length groups \<le> 1)"
  using groupMessages_terminates[of "[entryOf User [TextContent ''hi'']]"] by simp

text \<open>
  C7: on every entry sequence whose entries all have a non-empty content,
  \<^verbatim>\<open>groupMessages\<close> (and with it \<^verbatim>\<open>generateProcessingSummary\<close>, which it calls and
  which has no failing operation) returns a result: no read is out of range. In
  particular the run collected from an assistant entry starts with that entry, so
  \<^verbatim>\<open>assistantMessages[0]\<close> is defined.
\<close>

theorem groupMessages_no_fault:
  assumes "\<forall>e\<in>set entries. content (message e) \<noteq> []"
  shows "(\<exists>groups. groupMessages entries = Inr groups)
     \<and> (\<forall>i<length entries. role (message (entries ! i)) = Assistant \<longrightarrow>
           (\<exists>assistantMessages toolResults j.
              collect entries i [] [] = Inr (assistantMessages, toolResults, j)
              \<and> assistantMessages \<noteq> []
              \<and> entryAt assistantMessages 0 = Inr (entries ! i)))"
proof
  from groupLoop_total[of 0 entries "[]"]
  show "\<exists>groups. groupMessages entries = Inr groups"
    by (auto simp: groupMessages_def)
next
  show "\<forall>i<length entries. role (message (entries ! i)) = Assistant \<longrightarrow>
           (\<exists>assistantMessages toolResults j.
              collect entries i [] [] = Inr (assistantMessages, toolResults, j)
              \<and> assistantMessages \<noteq> []
              \<and> entryAt assistantMessages 0 = Inr (entries ! i))"
  proof (intro allI impI)
    fix i assume lt: "i < length entries" and r: "role (message (entries ! i)) = Assistant"
    have a: "isAssistantEntry (entries ! i)" using r by (simp add: isAssistantEntry_def)
    show "\<exists>assistantMessages toolResults j.
              collect entries i [] [] = Inr (assistantMessages, toolResults, j)
              \<and> assistantMessages \<noteq> []
              \<and> entryAt assistantMessages 0 = Inr (entries ! i)"
      unfolding collect_eq run_assistant[OF lt r] using a by (simp add: entryAt_def)
  qed
qed

theorem groupMessages_no_fault_witness:
  "content (message (entryOf Assistant [TextContent ''hi''])) \<noteq> []
   \<and> (\<exists>groups. groupMessages [entryOf Assistant [TextContent ''hi'']] = Inr groups)
   \<and> (\<exists>assistantMessages toolResults j.
         collect [entryOf Assistant [TextContent ''hi'']] 0 [] []
           = Inr (assistantMessages, toolResults, j)
         \<and> assistantMessages \<noteq> []
         \<and> entryAt assistantMessages 0 = Inr (entryOf Assistant [TextContent ''hi'']))"
  using groupMessages_no_fault[of "[entryOf Assistant [TextContent ''hi'']]"]
  by (simp add: entryOf_def)

section \<open>The collection loop\<close>

text \<open>
  C10: \<^verbatim>\<open>isToolResultMessage\<close> is true of every user entry whose content is empty, and
  the collection loop, meeting such an entry, appends it to \<^verbatim>\<open>toolResults\<close> and goes on
  instead of stopping the run.
\<close>

theorem empty_user_entry_absorbed:
  assumes "role (message e) = User" and "content (message e) = []"
  shows "isToolResultMessage e
     \<and> (\<forall>entries j assistantMessages toolResults.
          j < length entries \<and> entries ! j = e \<longrightarrow>
            collect entries j assistantMessages toolResults
              = collect entries (j + 1) assistantMessages (toolResults @ [e]))"
proof
  show tr: "isToolResultMessage e" using assms by (simp add: isToolResultMessage_def)
  show "\<forall>entries j assistantMessages toolResults.
          j < length entries \<and> entries ! j = e \<longrightarrow>
            collect entries j assistantMessages toolResults
              = collect entries (j + 1) assistantMessages (toolResults @ [e])"
  proof (intro allI impI)
    fix entries j and a t :: "ConversationEntry list"
    assume h: "j < length entries \<and> entries ! j = e"
    then show "collect entries j a t = collect entries (j + 1) a (t @ [e])"
      using assms(1) tr by (subst collect.simps) (simp add: entryAt_def)
  qed
qed

theorem empty_user_entry_absorbed_witness:
  "role (message (entryOf User [])) = User \<and> content (message (entryOf User [])) = []
   \<and> isToolResultMessage (entryOf User [])
   \<and> collect [entryOf Assistant [TextContent ''a''], entryOf User []] 0 [] []
       = Inr ([entryOf Assistant [TextContent ''a'']], [entryOf User []], 2)"
proof -
  have r: "role (message (entryOf User [])) = User" and c: "content (message (entryOf User [])) = []"
    by (simp_all add: entryOf_def)
  from empty_user_entry_absorbed[OF r c]
  have tr: "isToolResultMessage (entryOf User [])"
    and step: "collect [entryOf Assistant [TextContent ''a''], entryOf User []] 1
                 [entryOf Assistant [TextContent ''a'']] []
               = collect [entryOf Assistant [TextContent ''a''], entryOf User []] (1 + 1)
                   [entryOf Assistant [TextContent ''a'']] ([] @ [entryOf User []])"
    by simp_all
  have first: "collect [entryOf Assistant [TextContent ''a''], entryOf User []] 0 [] []
      = collect [entryOf Assistant [TextContent ''a''], entryOf User []] 1
          [entryOf Assistant [TextContent ''a'']] []"
    by (subst collect.simps) (simp add: entryAt_def entryOf_def)
  have last: "collect [entryOf Assistant [TextContent ''a''], entryOf User []] (1 + 1)
                   [entryOf Assistant [TextContent ''a'']] ([] @ [entryOf User []])
      = Inr ([entryOf Assistant [TextContent ''a'']], [entryOf User []], 2)"
    by (subst collect.simps) simp
  show ?thesis using r c tr first step last by simp
qed

section \<open>The bash workflow\<close>

lemma bashFires_update:
  assumes "bashFires entries i" and "role (message e') = Assistant"
    and "find isBashToolUse (content (message e')) = Some b"
  shows "bashFires (entries[i := e']) i"
  using assms by (simp add: bashFires_def)

lemma commentFollows_update:
  "commentFollows (entries[i := e']) i = commentFollows entries i"
  by (simp add: commentFollows_def)

text \<open>
  C9: when the bash branch is taken at an assistant entry whose content holds several
  Bash tool uses, the item stored as \<^verbatim>\<open>bashInput\<close> is the first of them in content order
  (the items before it are not Bash tool uses; the items after it may be). The group is
  built from that item, the next entry, the optional comment and the entry's timestamp: the
  other content items of the entry are not part of it, and replacing the entry by any
  assistant entry with the same first Bash tool use and the same timestamp leaves the
  iteration's result unchanged.
\<close>

theorem bash_input_is_first_bash_tool_use:
  assumes "bashFires entries i"
    and "content (message (entries ! i)) = pre @ b # post"
    and "isBashToolUse b" and "\<forall>c\<in>set pre. \<not> isBashToolUse c"
  shows "groupStep entries i =
           Inr (BashWorkflowGroup b (entries ! (i + 1))
                  (if commentFollows entries i then Some (entries ! (i + 2)) else None)
                  (orEmpty (timestamp (entries ! i))),
                if commentFollows entries i then i + 3 else i + 2)
     \<and> (\<forall>e'. role (message e') = Assistant
              \<and> find isBashToolUse (content (message e')) = Some b
              \<and> timestamp e' = timestamp (entries ! i)
            \<longrightarrow> groupStep (entries[i := e']) i = groupStep entries i)"
proof
  have f: "find isBashToolUse (content (message (entries ! i))) = Some b"
    using assms(2-4) by (simp add: find_first)
  show st: "groupStep entries i =
           Inr (BashWorkflowGroup b (entries ! (i + 1))
                  (if commentFollows entries i then Some (entries ! (i + 2)) else None)
                  (orEmpty (timestamp (entries ! i))),
                if commentFollows entries i then i + 3 else i + 2)"
    by (rule groupStep_bash[OF assms(1) f])
  show "\<forall>e'. role (message e') = Assistant
              \<and> find isBashToolUse (content (message e')) = Some b
              \<and> timestamp e' = timestamp (entries ! i)
            \<longrightarrow> groupStep (entries[i := e']) i = groupStep entries i"
  proof (intro allI impI)
    fix e' :: ConversationEntry
    assume h: "role (message e') = Assistant
              \<and> find isBashToolUse (content (message e')) = Some b
              \<and> timestamp e' = timestamp (entries ! i)"
    from assms(1) have lt: "i + 1 < length entries" by (simp add: bashFires_def)
    have bf: "bashFires (entries[i := e']) i"
      using bashFires_update[OF assms(1)] h by blast
    have f': "find isBashToolUse (content (message (entries[i := e'] ! i))) = Some b"
      using h lt by simp
    show "groupStep (entries[i := e']) i = groupStep entries i"
      unfolding groupStep_bash[OF bf f'] st commentFollows_update
      using h lt by simp
  qed
qed

theorem bash_input_is_first_bash_tool_use_witness:
  "groupStep
     [entryOf Assistant [TextContent ''run'', ToolUse ''t1'' ''Bash'' (JString ''ls''),
        ToolUse ''t2'' ''Bash'' (JString ''pwd'')],
      entryOf User [ToolResult ''t1'' (JString ''out'') None]] 0
   = Inr (BashWorkflowGroup (ToolUse ''t1'' ''Bash'' (JString ''ls''))
            (entryOf User [ToolResult ''t1'' (JString ''out'') None]) None [], 2)"
proof -
  let ?a = "entryOf Assistant [TextContent ''run'', ToolUse ''t1'' ''Bash'' (JString ''ls''),
        ToolUse ''t2'' ''Bash'' (JString ''pwd'')]"
  let ?r = "entryOf User [ToolResult ''t1'' (JString ''out'') None]"
  have bf: "bashFires [?a, ?r] 0"
    by (simp add: bashFires_def entryOf_def isBashToolResult_def isToolResultMessage_def)
  have c: "content (message ([?a, ?r] ! 0))
             = [TextContent ''run''] @ ToolUse ''t1'' ''Bash'' (JString ''ls'')
                 # [ToolUse ''t2'' ''Bash'' (JString ''pwd'')]"
    by (simp add: entryOf_def)
  have b: "isBashToolUse (ToolUse ''t1'' ''Bash'' (JString ''ls''))" by simp
  have p: "\<forall>c\<in>set [TextContent ''run'']. \<not> isBashToolUse c" by simp
  have nc: "\<not> commentFollows [?a, ?r] 0" by (simp add: commentFollows_def)
  from bash_input_is_first_bash_tool_use[OF bf c b p] nc
  show ?thesis by (simp add: orEmpty_def entryOf_def)
qed

text \<open>
  C5: when the bash branch is taken at index \<open>i\<close> and \<^verbatim>\<open>entries[i + 2]\<close> exists, has
  user role, is not a tool-result message and is not flagged sidechain, that entry becomes
  the \<^verbatim>\<open>userComment\<close> of the bash workflow and the cursor moves to \<open>i + 3\<close>, so the
  entry starts no group of its own. In particular the literal input of an assistant entry
  with a Bash tool use of command \<^verbatim>\<open>ls -la\<close>, a user entry with a tool result and a
  user entry with the text \<^verbatim>\<open>thanks\<close> yields exactly one bash workflow, with that command
  and that comment.
\<close>

theorem user_comment_attached:
  assumes "bashFires entries i"
    and "i + 2 < length entries"
    and "role (message (entries ! (i + 2))) = User"
    and "\<not> isToolResultMessage (entries ! (i + 2))"
    and "\<not> truthy (isSidechain (entries ! (i + 2)))"
  shows "(\<exists>bashInput. find isBashToolUse (content (message (entries ! i))) = Some bashInput
            \<and> groupStep entries i =
                Inr (BashWorkflowGroup bashInput (entries ! (i + 1)) (Some (entries ! (i + 2)))
                       (orEmpty (timestamp (entries ! i))), i + 3))
     \<and> groupMessages
          [entryOf Assistant
             [ToolUse ''toolu_1'' ''Bash'' (JObject [(''command'', JString ''ls -la'')])],
           entryOf User [ToolResult ''toolu_1'' (JString ''total 0'') None],
           entryOf User [TextContent ''thanks'']]
        = Inr [BashWorkflowGroup
                 (ToolUse ''toolu_1'' ''Bash'' (JObject [(''command'', JString ''ls -la'')]))
                 (entryOf User [ToolResult ''toolu_1'' (JString ''total 0'') None])
                 (Some (entryOf User [TextContent ''thanks''])) []]"
proof
  from assms(1) obtain b where b: "find isBashToolUse (content (message (entries ! i))) = Some b"
    by (auto simp: bashFires_def)
  have cf: "commentFollows entries i" using assms(2-5) by (simp add: commentFollows_def)
  show "\<exists>bashInput. find isBashToolUse (content (message (entries ! i))) = Some bashInput
            \<and> groupStep entries i =
                Inr (BashWorkflowGroup bashInput (entries ! (i + 1)) (Some (entries ! (i + 2)))
                       (orEmpty (timestamp (entries ! i))), i + 3)"
    using groupStep_bash[OF assms(1) b] b cf by simp
next
  show "groupMessages
          [entryOf Assistant
             [ToolUse ''toolu_1'' ''Bash'' (JObject [(''command'', JString ''ls -la'')])],
           entryOf User [ToolResult ''toolu_1'' (JString ''total 0'') None],
           entryOf User [TextContent ''thanks'']]
        = Inr [BashWorkflowGroup
                 (ToolUse ''toolu_1'' ''Bash'' (JObject [(''command'', JString ''ls -la'')]))
                 (entryOf User [ToolResult ''toolu_1'' (JString ''total 0'') None])
                 (Some (entryOf User [TextContent ''thanks''])) []]"
    by code_simp
qed

theorem user_comment_attached_witness:
  "groupStep
     [entryOf Assistant
        [ToolUse ''toolu_1'' ''Bash'' (JObject [(''command'', JString ''ls -la'')])],
      entryOf User [ToolResult ''toolu_1'' (JString ''total 0'') None],
      entryOf User [TextContent ''thanks'']] 0
   = Inr (BashWorkflowGroup
            (ToolUse ''toolu_1'' ''Bash'' (JObject [(''command'', JString ''ls -la'')]))
            (entryOf User [ToolResult ''toolu_1'' (JString ''total 0'') None])
            (Some (entryOf User [TextContent ''thanks''])) [], 3)"
proof -
  let ?a = "entryOf Assistant
        [ToolUse ''toolu_1'' ''Bash'' (JObject [(''command'', JString ''ls -la'')])]"
  let ?r = "entryOf User [ToolResult ''toolu_1'' (JString ''total 0'') None]"
  let ?u = "entryOf User [TextContent ''thanks'']"
  have bf: "bashFires [?a, ?r, ?u] 0"
    by (simp add: bashFires_def entryOf_def isBashToolResult_def isToolResultMessage_def)
  have l: "0 + 2 < length [?a, ?r, ?u]" by simp
  have r: "role (message ([?a, ?r, ?u] ! (0 + 2))) = User" by (simp add: entryOf_def)
  have n: "\<not> isToolResultMessage ([?a, ?r, ?u] ! (0 + 2))"
    by (simp add: entryOf_def isToolResultMessage_def)
  have s: "\<not> truthy (isSidechain ([?a, ?r, ?u] ! (0 + 2)))"
    by (simp add: entryOf_def truthy_def)
  from user_comment_attached[OF bf l r n s]
  show ?thesis by (simp add: orEmpty_def entryOf_def)
qed

lemma separate_single_text:
  "content (message e) = [TextContent t] \<Longrightarrow>
     separateInternalProcessing e = ([], [TextContent t])"
  by (simp add: separateInternalProcessing_def lastTextIndex_def)

text \<open>
  The group of an iteration at a cursor that the scan reaches is among the groups returned.
\<close>

lemma reached_groupLoop:
  "reached entries i \<Longrightarrow> \<exists>emitted. groupMessages entries = groupLoop entries i emitted"
proof (induction rule: reached.induct)
  case (cursor_start entries)
  show ?case unfolding groupMessages_def by blast
next
  case (cursor_step entries i g i')
  then obtain emitted where e: "groupMessages entries = groupLoop entries i emitted" by blast
  have "groupLoop entries i emitted = groupLoop entries i' (emitted @ [g])"
    using cursor_step.hyps(2,3) by (subst groupLoop.simps) simp
  with e show ?case by metis
qed

lemma reached_emits:
  assumes "reached entries i" and "i < length entries" and "groupStep entries i = Inr (g, i')"
  shows "\<exists>before after. groupMessages entries = Inr (before @ g # after)"
proof -
  from reached_groupLoop[OF assms(1)] obtain emitted
    where e: "groupMessages entries = groupLoop entries i emitted" by blast
  from groupStep_total[OF assms(2)] assms(3) have le: "i' \<le> length entries" by auto
  from groupLoop_total[OF le, of "emitted @ [g]"] obtain new
    where n: "groupLoop entries i' (emitted @ [g]) = Inr ((emitted @ [g]) @ new)" by blast
  have "groupLoop entries i emitted = groupLoop entries i' (emitted @ [g])"
    using assms(2,3) by (subst groupLoop.simps) simp
  with e n have "groupMessages entries = Inr (emitted @ g # new)" by simp
  then show ?thesis by blast
qed

text \<open>
  C3, as the code has it: whenever the cursor of the scan reaches an assistant entry that
  holds a Bash tool use, and the next entry is a tool-result message with at least one tool
  result whose \<^verbatim>\<open>tool_use_id\<close> is not empty, the iteration emits a bash workflow for
  the pair, never a processing workflow, whatever else the assistant entry holds, and that
  bash workflow is one of the groups that \<^verbatim>\<open>groupMessages\<close> returns; neither the tool's
  name nor the identifier of the result is compared with the tool use.
\<close>

theorem shell_pattern_at_cursor:
  assumes "reached entries i"
    and "i + 1 < length entries"
    and "role (message (entries ! i)) = Assistant"
    and "list_ex isBashToolUse (content (message (entries ! i)))"
    and "isToolResultMessage (entries ! (i + 1))"
    and "ToolResult toolUseId resultContent isError \<in> set (content (message (entries ! (i + 1))))"
    and "toolUseId \<noteq> []"
  shows "\<exists>bashInput userComment i' before after.
           groupStep entries i =
             Inr (BashWorkflowGroup bashInput (entries ! (i + 1)) userComment
                    (orEmpty (timestamp (entries ! i))), i')
         \<and> groupMessages entries =
             Inr (before @ BashWorkflowGroup bashInput (entries ! (i + 1)) userComment
                             (orEmpty (timestamp (entries ! i))) # after)"
proof -
  from assms(4) obtain b where b: "find isBashToolUse (content (message (entries ! i))) = Some b"
    by (cases "find isBashToolUse (content (message (entries ! i)))")
       (auto simp: find_None_iff list_ex_iff)
  have "hasToolUseId (ToolResult toolUseId resultContent isError)" using assms(7) by simp
  with assms(6) have "list_ex hasToolUseId (content (message (entries ! (i + 1))))"
    unfolding list_ex_iff by blast
  with assms(5) have "isBashToolResult (entries ! (i + 1))" by (simp add: isBashToolResult_def)
  with assms(2,3) b have bf: "bashFires entries i" by (simp add: bashFires_def)
  note st = groupStep_bash[OF bf b]
  from assms(2) have lt: "i < length entries" by simp
  from reached_emits[OF assms(1) lt st] st show ?thesis by blast
qed

theorem shell_pattern_at_cursor_witness:
  "\<exists>bashInput userComment i' before after.
     groupStep
       [entryOf User [TextContent ''list the files''],
        entryOf Assistant [ThinkingContent ''use ls'', ToolUse ''t1'' ''Bash'' (JString ''ls'')],
        entryOf User [ToolResult ''other'' (JString ''out'') None]] 1
     = Inr (BashWorkflowGroup bashInput
              (entryOf User [ToolResult ''other'' (JString ''out'') None]) userComment [], i')
   \<and> groupMessages
       [entryOf User [TextContent ''list the files''],
        entryOf Assistant [ThinkingContent ''use ls'', ToolUse ''t1'' ''Bash'' (JString ''ls'')],
        entryOf User [ToolResult ''other'' (JString ''out'') None]]
     = Inr (before @ BashWorkflowGroup bashInput
              (entryOf User [ToolResult ''other'' (JString ''out'') None]) userComment [] # after)"
proof -
  let ?u = "entryOf User [TextContent ''list the files'']"
  let ?a = "entryOf Assistant [ThinkingContent ''use ls'', ToolUse ''t1'' ''Bash'' (JString ''ls'')]"
  let ?r = "entryOf User [ToolResult ''other'' (JString ''out'') None]"
  have s0: "groupStep [?u, ?a, ?r] 0 = Inr (RegularMessage ?u, 1)"
    by (simp add: groupStep_def entryAt_def entryOf_def)
  have 0: "reached [?u, ?a, ?r] 1"
    by (rule cursor_step[OF cursor_start _ s0]) simp
  have 1: "1 + 1 < length [?u, ?a, ?r]" by simp
  have 2: "role (message ([?u, ?a, ?r] ! 1)) = Assistant" by (simp add: entryOf_def)
  have 3: "list_ex isBashToolUse (content (message ([?u, ?a, ?r] ! 1)))" by (simp add: entryOf_def)
  have 4: "isToolResultMessage ([?u, ?a, ?r] ! (1 + 1))"
    by (simp add: entryOf_def isToolResultMessage_def)
  have 5: "ToolResult ''other'' (JString ''out'') None
             \<in> set (content (message ([?u, ?a, ?r] ! (1 + 1))))"
    by (simp add: entryOf_def)
  have 6: "''other'' \<noteq> []" by simp
  have ts: "orEmpty (timestamp ([?u, ?a, ?r] ! 1)) = []" by (simp add: orEmpty_def entryOf_def)
  have nth: "[?u, ?a, ?r] ! (1 + 1) = ?r" by simp
  from shell_pattern_at_cursor[OF 0 1 2 3 4 5 6]
  show ?thesis unfolding ts nth .
qed

text \<open>
  The claim C3 as stated fails on two inputs. In the first the assistant entry with the
  Bash tool use follows another assistant entry: the run opened by that entry absorbs the
  pair into a processing workflow. In the second the only tool result has an empty
  \<^verbatim>\<open>tool_use_id\<close>, which \<^verbatim>\<open>isBashToolResult\<close> does not accept.
\<close>

theorem shell_pattern_counterexample:
  "groupMessages
     [entryOf Assistant [TextContent ''hi''],
      entryOf Assistant [ToolUse ''t1'' ''Bash'' (JString ''ls'')],
      entryOf User [ToolResult ''t1'' (JString ''out'') None]]
   = Inr [ProcessingWorkflowGroup
            [entryOf Assistant [TextContent ''hi''],
             entryOf Assistant [ToolUse ''t1'' ''Bash'' (JString ''ls'')]]
            [TextContent ''hi'', ToolUse ''t1'' ''Bash'' (JString ''ls'')]
            []
            [entryOf User [ToolResult ''t1'' (JString ''out'') None]]
            (generateProcessingSummary
               [TextContent ''hi'', ToolUse ''t1'' ''Bash'' (JString ''ls'')]
               [entryOf User [ToolResult ''t1'' (JString ''out'') None]] 2)
            []]
   \<and> groupMessages
       [entryOf Assistant [ToolUse ''t1'' ''Bash'' (JString ''ls'')],
        entryOf User [ToolResult [] (JString ''out'') None]]
     = Inr [ProcessingWorkflowGroup
              [entryOf Assistant [ToolUse ''t1'' ''Bash'' (JString ''ls'')]]
              [ToolUse ''t1'' ''Bash'' (JString ''ls'')]
              []
              [entryOf User [ToolResult [] (JString ''out'') None]]
              (generateProcessingSummary [ToolUse ''t1'' ''Bash'' (JString ''ls'')]
                 [entryOf User [ToolResult [] (JString ''out'') None]] 1)
              []]"
  by code_simp

text \<open>
  On the first of these inputs the scan goes from the cursor \<open>0\<close> to the end: the cursor
  never stands at the entry with the Bash tool use.
\<close>

lemma absorbed_pair_not_reached:
  "\<not> reached
       [entryOf Assistant [TextContent ''hi''],
        entryOf Assistant [ToolUse ''t1'' ''Bash'' (JString ''ls'')],
        entryOf User [ToolResult ''t1'' (JString ''out'') None]] 1"
proof -
  let ?es = "[entryOf Assistant [TextContent ''hi''],
        entryOf Assistant [ToolUse ''t1'' ''Bash'' (JString ''ls'')],
        entryOf User [ToolResult ''t1'' (JString ''out'') None]]"
  have s0: "\<exists>g. groupStep ?es 0 = Inr (g, 3)"
  proof -
    have "groupStep ?es 0 = Inr (ProcessingWorkflowGroup
            [entryOf Assistant [TextContent ''hi''],
             entryOf Assistant [ToolUse ''t1'' ''Bash'' (JString ''ls'')]]
            [TextContent ''hi'', ToolUse ''t1'' ''Bash'' (JString ''ls'')]
            []
            [entryOf User [ToolResult ''t1'' (JString ''out'') None]]
            (generateProcessingSummary
               [TextContent ''hi'', ToolUse ''t1'' ''Bash'' (JString ''ls'')]
               [entryOf User [ToolResult ''t1'' (JString ''out'') None]] 2)
            [], 3)"
      by code_simp
    then show ?thesis by blast
  qed
  have "reached es i \<Longrightarrow> es = ?es \<Longrightarrow> i = 0 \<or> i = 3" for es i
  proof (induction rule: reached.induct)
    case (cursor_start entries)
    show ?case by simp
  next
    case (cursor_step entries i g i')
    from cursor_step.IH[OF cursor_step.prems] cursor_step.hyps(2) cursor_step.prems
    have "i = 0" by auto
    with cursor_step.hyps(3) cursor_step.prems s0 show ?case by auto
  qed
  then show ?thesis by fastforce
qed

section \<open>The assistant branch\<close>

text \<open>
  C4: in an iteration at an assistant entry where the bash branch is not taken, the run
  is collected and a processing workflow is emitted if and only if the accumulated
  internal processing is not empty or more than one assistant entry was collected;
  otherwise the group is the regular message of the entry at the cursor, which is then the
  only assistant entry collected. An entry whose content is exactly one text item, alone
  in its run, gives a regular message.
\<close>

theorem processing_workflow_iff:
  assumes "i < length entries" and "role (message (entries ! i)) = Assistant"
    and "\<not> bashFires entries i"
  shows "\<exists>assistantMessages toolResults j.
      collect entries i [] [] = Inr (assistantMessages, toolResults, j)
    \<and> groupStep entries i =
        Inr (if fst (processAssistantMessages assistantMessages) \<noteq> []
                \<or> length assistantMessages > 1
             then ProcessingWorkflowGroup assistantMessages
                    (fst (processAssistantMessages assistantMessages))
                    (snd (processAssistantMessages assistantMessages))
                    toolResults
                    (generateProcessingSummary
                       (fst (processAssistantMessages assistantMessages)) toolResults
                       (length assistantMessages))
                    (orEmpty (timestamp (entries ! i)))
             else RegularMessage (entries ! i), j)
    \<and> (length assistantMessages = 1 \<longrightarrow> assistantMessages = [entries ! i])
    \<and> (\<forall>t. length assistantMessages = 1 \<and> content (message (entries ! i)) = [TextContent t]
          \<longrightarrow> groupStep entries i = Inr (RegularMessage (entries ! i), j))"
proof -
  let ?as = "filter isAssistantEntry (run entries i)"
  let ?ts = "filter (\<lambda>e. \<not> isAssistantEntry e) (run entries i)"
  let ?j = "i + length (run entries i)"
  have a: "isAssistantEntry (entries ! i)" using assms(2) by (simp add: isAssistantEntry_def)
  have hd: "?as = entries ! i # filter isAssistantEntry (run entries (i + 1))"
    using run_assistant[OF assms(1,2)] a by simp
  have c: "collect entries i [] [] = Inr (?as, ?ts, ?j)" by (simp add: collect_eq)
  have st: "groupStep entries i =
        Inr (if fst (processAssistantMessages ?as) \<noteq> [] \<or> length ?as > 1
             then ProcessingWorkflowGroup ?as
                    (fst (processAssistantMessages ?as)) (snd (processAssistantMessages ?as)) ?ts
                    (generateProcessingSummary (fst (processAssistantMessages ?as)) ?ts (length ?as))
                    (orEmpty (timestamp (entries ! i)))
             else RegularMessage (entries ! i), ?j)"
    unfolding groupStep_assistant[OF assms] assistantBranch_eq[OF assms(1,2)]
    by (simp add: Let_def)
  have one: "length ?as = 1 \<longrightarrow> ?as = [entries ! i]"
    using hd by simp
  have single: "\<forall>t. length ?as = 1 \<and> content (message (entries ! i)) = [TextContent t]
          \<longrightarrow> groupStep entries i = Inr (RegularMessage (entries ! i), ?j)"
  proof (intro allI impI)
    fix t assume h: "length ?as = 1 \<and> content (message (entries ! i)) = [TextContent t]"
    with one have eq: "?as = [entries ! i]" by blast
    have "processAssistantMessages [entries ! i] = ([], [TextContent t])"
      using h by (simp add: processAssistantMessages_eq separate_single_text)
    then show "groupStep entries i = Inr (RegularMessage (entries ! i), ?j)"
      unfolding st eq by simp
  qed
  from c st one single show ?thesis by blast
qed

theorem processing_workflow_iff_witness:
  "groupStep [entryOf Assistant [TextContent ''hello'']] 0
     = Inr (RegularMessage (entryOf Assistant [TextContent ''hello'']), 1)
   \<and> groupStep [entryOf Assistant [ThinkingContent ''hm'', TextContent ''hello'']] 0
     = Inr (ProcessingWorkflowGroup
              [entryOf Assistant [ThinkingContent ''hm'', TextContent ''hello'']]
              [ThinkingContent ''hm''] [TextContent ''hello''] []
              (generateProcessingSummary [ThinkingContent ''hm''] [] 1) [], 1)"
proof -
  let ?e = "entryOf Assistant [TextContent ''hello'']"
  let ?f = "entryOf Assistant [ThinkingContent ''hm'', TextContent ''hello'']"
  have c: "collect [?e] 0 [] [] = Inr ([?e], [], 1)"
    by (simp add: collect.simps entryAt_def entryOf_def)
  have 1: "0 < length [?e]" by simp
  have 2: "role (message ([?e] ! 0)) = Assistant" by (simp add: entryOf_def)
  have 3: "\<not> bashFires [?e] 0" by (simp add: bashFires_def)
  have t: "content (message ([?e] ! 0)) = [TextContent ''hello'']" by (simp add: entryOf_def)
  from processing_workflow_iff[OF 1 2 3] obtain a ts j
    where "collect [?e] 0 [] [] = Inr (a, ts, j)"
      and "\<forall>t. length a = 1 \<and> content (message ([?e] ! 0)) = [TextContent t]
             \<longrightarrow> groupStep [?e] 0 = Inr (RegularMessage ([?e] ! 0), j)"
    by blast
  with c t have A: "groupStep [?e] 0 = Inr (RegularMessage ?e, 1)" by simp
  have c': "collect [?f] 0 [] [] = Inr ([?f], [], 1)"
    by (simp add: collect.simps entryAt_def entryOf_def)
  have p: "processAssistantMessages [?f] = ([ThinkingContent ''hm''], [TextContent ''hello''])"
    by (simp add: processAssistantMessages_def separateInternalProcessing_def lastTextIndex_def
          entryOf_def)
  have 1: "0 < length [?f]" by simp
  have 2: "role (message ([?f] ! 0)) = Assistant" by (simp add: entryOf_def)
  have 3: "\<not> bashFires [?f] 0" by (simp add: bashFires_def)
  from processing_workflow_iff[OF 1 2 3] obtain a ts j
    where "collect [?f] 0 [] [] = Inr (a, ts, j)"
      and "groupStep [?f] 0 =
        Inr (if fst (processAssistantMessages a) \<noteq> [] \<or> length a > 1
             then ProcessingWorkflowGroup a
                    (fst (processAssistantMessages a)) (snd (processAssistantMessages a)) ts
                    (generateProcessingSummary (fst (processAssistantMessages a)) ts (length a))
                    (orEmpty (timestamp ([?f] ! 0)))
             else RegularMessage ([?f] ! 0), j)"
    by blast
  moreover from this(1) c' have "a = [?f]" and "ts = []" and "j = 1" by simp_all
  moreover have "orEmpty (timestamp ([?f] ! 0)) = []" by (simp add: orEmpty_def entryOf_def)
  ultimately have B: "groupStep [?f] 0
     = Inr (ProcessingWorkflowGroup [?f] [ThinkingContent ''hm''] [TextContent ''hello''] []
              (generateProcessingSummary [ThinkingContent ''hm''] [] 1) [], 1)"
    using p by simp
  from A B show ?thesis by blast
qed

text \<open>
  C2 does not hold of the code: the image in the final response of the first assistant
  entry is pushed to \<^verbatim>\<open>finalResponse\<close>, and the assignment at the last index replaces
  that array, so the group's final response holds the last entry's items only.
\<close>

theorem earlier_image_not_kept:
  "groupMessages
     [entryOf Assistant [TextContent ''chart:'', ImageContent ''image/png'' ''iVBOR''],
      entryOf Assistant [TextContent ''done'']]
   = Inr [ProcessingWorkflowGroup
            [entryOf Assistant [TextContent ''chart:'', ImageContent ''image/png'' ''iVBOR''],
             entryOf Assistant [TextContent ''done'']]
            [TextContent ''chart:'']
            [TextContent ''done'']
            []
            (generateProcessingSummary [TextContent ''chart:''] [] 2)
            []]"
  by code_simp

section \<open>The groups and the entries they are built from\<close>

text \<open>
  Every iteration reads a segment of consecutive entries at the cursor and builds its group
  from it, and the segments, in order, make up the input. A regular message and a processing
  workflow hold the entries of their segment, except for the tool-result messages behind a
  collapsed assistant entry, which the regular message does not hold; a bash workflow holds
  the output entry and the comment, and of its assistant entry the first Bash tool use and
  the timestamp.
\<close>

lemma take_run: "take (length (run entries i)) (drop i entries) = run entries i"
  unfolding run_def by (rule takeWhile_eq_take[symmetric])

lemma take_drop_two:
  "i + 1 < length entries \<Longrightarrow> take 2 (drop i entries) = [entries ! i, entries ! (i + 1)]"
  by (simp add: take_Suc_conv_app_nth numeral_2_eq_2)

lemma take_drop_three:
  "i + 2 < length entries \<Longrightarrow>
     take 3 (drop i entries) = [entries ! i, entries ! (i + 1), entries ! (i + 2)]"
  by (simp add: take_Suc_conv_app_nth numeral_3_eq_3)

lemma run_tail_tool_results:
  assumes "filter isAssistantEntry xs = []" and "list_all absorbable xs"
  shows "list_all isToolResultMessage xs"
  using assms by (induction xs) (auto simp: absorbable_def isAssistantEntry_def split: if_splits)

lemma list_all_run: "list_all absorbable (run entries i)"
  unfolding run_def list_all_iff by (auto dest: set_takeWhileD)

lemma groupStep_builtFrom:
  assumes "i < length entries"
  shows "\<exists>g i'. groupStep entries i = Inr (g, i') \<and> i < i' \<and> i' \<le> length entries
           \<and> builtFrom g (take (i' - i) (drop i entries))"
proof (cases "role (message (entries ! i)) = Assistant")
  case False
  have "take 1 (drop i entries) = [entries ! i]"
    using assms by (simp add: take_Suc_conv_app_nth)
  with False assms show ?thesis by (simp add: groupStep_pass)
next
  case True
  note r = True
  have a: "isAssistantEntry (entries ! i)" using r by (simp add: isAssistantEntry_def)
  show ?thesis
  proof (cases "bashFires entries i")
    case True
    then obtain b where b: "find isBashToolUse (content (message (entries ! i))) = Some b"
      by (auto simp: bashFires_def)
    from True have lt: "i + 1 < length entries" by (simp add: bashFires_def)
    show ?thesis
    proof (cases "commentFollows entries i")
      case True
      then have "i + 2 < length entries" by (simp add: commentFollows_def)
      with True a b show ?thesis
        unfolding groupStep_bash[OF \<open>bashFires entries i\<close> b]
        by (simp add: take_drop_three)
    next
      case False
      with lt a b show ?thesis
        unfolding groupStep_bash[OF \<open>bashFires entries i\<close> b]
        by (simp add: take_drop_two)
    qed
  next
    case False
    let ?run = "run entries i"
    have le: "i + length ?run \<le> length entries"
      using run_length[of i entries] assms by simp
    have hd: "?run = entries ! i # run entries (i + 1)" by (rule run_assistant[OF assms r])
    have all: "list_all absorbable ?run" by (rule list_all_run)
    have seg: "take (i + length ?run - i) (drop i entries) = ?run" by (simp add: take_run)
    let ?as = "filter isAssistantEntry ?run"
    show ?thesis
    proof (cases "fst (processAssistantMessages ?as) \<noteq> [] \<or> length ?as > 1")
      case True
      then show ?thesis
        unfolding groupStep_assistant[OF assms r False] assistantBranch_eq[OF assms r] Let_def
        using le hd all seg by simp
    next
      case False
      then have "filter isAssistantEntry (run entries (i + 1)) = []"
        using hd a by simp
      moreover have "list_all absorbable (run entries (i + 1))" by (rule list_all_run)
      ultimately have tr: "list_all isToolResultMessage (run entries (i + 1))"
        by (rule run_tail_tool_results)
      have bf: "builtFrom (RegularMessage (entries ! i)) ?run"
        using hd tr a by simp
      from False show ?thesis
        unfolding groupStep_assistant[OF assms r \<open>\<not> bashFires entries i\<close>]
          assistantBranch_eq[OF assms r] Let_def
        using le hd bf seg by simp
    qed
  qed
qed

lemma groupLoop_builtFrom:
  "i \<le> length entries \<Longrightarrow>
     \<exists>new segs. groupLoop entries i acc = Inr (acc @ new)
        \<and> concat segs = drop i entries \<and> list_all2 builtFrom new segs"
proof (induction entries i acc rule: groupLoop.induct)
  case (1 entries i acc)
  show ?case
  proof (cases "i < length entries")
    case False
    then have "groupLoop entries i acc = Inr (acc @ [])" by (simp add: groupLoop.simps)
    moreover have "concat [] = drop i entries" using False by simp
    ultimately show ?thesis by (metis list_all2_Nil)
  next
    case True
    from groupStep_builtFrom[OF True] obtain g i'
      where st: "groupStep entries i = Inr (g, i')" and adv: "i < i'" and le: "i' \<le> length entries"
        and bf: "builtFrom g (take (i' - i) (drop i entries))"
      by blast
    from "1.IH"[OF True st refl le] obtain new segs
      where new: "groupLoop entries i' (acc @ [g]) = Inr ((acc @ [g]) @ new)"
        and cc: "concat segs = drop i' entries" and all: "list_all2 builtFrom new segs"
      by blast
    have loop: "groupLoop entries i acc = Inr (acc @ (g # new))"
      using True st new by (subst groupLoop.simps) simp
    have "drop i' entries = drop (i' - i) (drop i entries)" using adv by simp
    then have "concat (take (i' - i) (drop i entries) # segs) = drop i entries"
      using cc by (simp del: drop_drop)
    moreover have "list_all2 builtFrom (g # new) (take (i' - i) (drop i entries) # segs)"
      using bf all by simp
    ultimately show ?thesis using loop by blast
  qed
qed

lemma groupMessages_segments:
  "\<exists>groups segs. groupMessages entries = Inr groups
      \<and> concat segs = entries \<and> list_all2 builtFrom groups segs"
  using groupLoop_builtFrom[of 0 entries "[]"] by (simp add: groupMessages_def)

text \<open>
  C1 does not hold of the code: a run of one assistant entry without internal processing
  followed by a tool-result message is collapsed to the regular message of the assistant
  entry, the cursor moves past the tool-result message, and that entry is in no group.
\<close>

theorem absorbed_tool_result_dropped:
  "groupMessages
     [entryOf Assistant [TextContent ''hi''],
      entryOf User [ToolResult ''t1'' (JString ''out'') None]]
   = Inr [RegularMessage (entryOf Assistant [TextContent ''hi''])]"
  by code_simp

section \<open>The summary of a processing workflow\<close>

text \<open>
  The tool clause of the summary. \<^verbatim>\<open>toolCountMap\<close> holds, in the order of first
  occurrence, each tool name with the number of its occurrences.
\<close>

lemma set_firstSeen: "set (firstSeen xs) = set xs"
  by (induction xs) auto

lemma distinct_firstSeen: "distinct (firstSeen xs)"
  by (induction xs) (auto simp: set_firstSeen)

lemma firstSeen_snoc:
  "firstSeen (xs @ [x]) = (if x \<in> set xs then firstSeen xs else firstSeen xs @ [x])"
  by (induction xs) auto

lemma countNames_snoc:
  "countNames (names @ [x]) m =
     mapSet (countNames names m) x (orZero (mapGet (countNames names m) x) + 1)"
  by (induction names arbitrary: m) auto

lemma mapGet_tabulate:
  "mapGet (map (\<lambda>n. (n, f n)) ks) x = (if x \<in> set ks then Some (f x) else None)"
  by (induction ks) auto

lemma mapSet_tabulate_new:
  "x \<notin> set ks \<Longrightarrow> mapSet (map (\<lambda>n. (n, f n)) ks) x v = map (\<lambda>n. (n, f n)) ks @ [(x, v)]"
  by (induction ks) auto

lemma mapSet_tabulate_old:
  "x \<in> set ks \<Longrightarrow> distinct ks \<Longrightarrow>
     mapSet (map (\<lambda>n. (n, f n)) ks) x v = map (\<lambda>n. (n, if n = x then v else f n)) ks"
  by (induction ks) auto

lemma countNames_eq:
  "countNames names [] = map (\<lambda>n. (n, count_list names n)) (firstSeen names)"
proof (induction names rule: rev_induct)
  case Nil
  show ?case by simp
next
  case (snoc x names)
  show ?case
  proof (cases "x \<in> set names")
    case True
    then have in_fs: "x \<in> set (firstSeen names)" by (simp add: set_firstSeen)
    have "countNames (names @ [x]) []
            = map (\<lambda>n. (n, if n = x then count_list names x + 1 else count_list names n))
                (firstSeen names)"
      unfolding countNames_snoc snoc.IH
      using in_fs distinct_firstSeen[of names]
      by (simp add: mapGet_tabulate mapSet_tabulate_old orZero_def)
    also have "\<dots> = map (\<lambda>n. (n, count_list (names @ [x]) n)) (firstSeen (names @ [x]))"
      using True by (simp add: firstSeen_snoc)
    finally show ?thesis .
  next
    case False
    then have out_fs: "x \<notin> set (firstSeen names)" by (simp add: set_firstSeen)
    have "countNames (names @ [x]) []
            = map (\<lambda>n. (n, count_list names n)) (firstSeen names) @ [(x, 1)]"
      unfolding countNames_snoc snoc.IH
      using out_fs by (simp add: mapGet_tabulate mapSet_tabulate_new orZero_def)
    also have "\<dots> = map (\<lambda>n. (n, count_list (names @ [x]) n)) (firstSeen (names @ [x]))"
      using False out_fs by (auto simp: firstSeen_snoc)
    finally show ?thesis .
  qed
qed

lemma uniqueTools_eq:
  "uniqueTools (countNames names []) = map (renderName names) (take 3 (firstSeen names))"
  by (simp add: uniqueTools_def countNames_eq take_map renderTool_def renderName_def comp_def)

lemma toolPart_eq:
  "toolPart internalProcessing =
     iconTools @ '' '' @ showNat (length (filter isToolUse internalProcessing)) @ '' tool''
       @ plural (length (filter isToolUse internalProcessing)) @ '': ''
       @ join '', '' (map (renderName (toolNames internalProcessing))
                        (take 3 (firstSeen (toolNames internalProcessing))))
       @ (if length (firstSeen (toolNames internalProcessing)) > 3
          then '' +'' @ showNat (length (firstSeen (toolNames internalProcessing)) - 3) @ '' more''
          else [])"
proof -
  let ?d = "firstSeen (toolNames internalProcessing)"
  have len_map: "length (countNames (toolNames internalProcessing) []) = length ?d"
    by (simp add: countNames_eq)
  have len_shown: "length (uniqueTools (countNames (toolNames internalProcessing) []))
                     = min (length ?d) 3"
    by (simp add: uniqueTools_eq)
  have lt: "min (length ?d) 3 < length ?d \<longleftrightarrow> length ?d > 3" by auto
  have diff: "length ?d > 3 \<Longrightarrow> length ?d - min (length ?d) 3 = length ?d - 3" by auto
  show ?thesis
    unfolding toolPart_def Let_def len_map len_shown lt
    by (simp add: uniqueTools_eq diff)
qed


text \<open>The tool names of the code are the counted names.\<close>

lemma toolNames_countedNames: "toolNames cs = countedNames cs"
  unfolding toolNames_def countedNames_def
  by (induction cs rule: itemNames.induct) simp_all

lemma toolCount_itemNames: "length (filter isToolUse cs) = length (itemNames cs)"
  by (induction cs rule: itemNames.induct) simp_all

lemma countedNames_plain: "[] \<notin> set (itemNames cs) \<Longrightarrow> countedNames cs = itemNames cs"
  unfolding countedNames_def by (rule map_idI) auto

text \<open>
  C6, as the code has it: for an internal processing with at least one tool use, every tool
  use is counted under its name, and under \<^verbatim>\<open>Unknown\<close> when its name is empty. The tool
  clause of the summary reads: the icon, the number of tool uses, \<^verbatim>\<open>tool\<close> or
  \<^verbatim>\<open>tools\<close>, a colon and the first three distinct counted names in the order of their
  first occurrence, separated by commas, where a name counted more than once is followed by
  its count in parentheses and a name counted once stands alone; the suffix
  \<^verbatim>\<open>+N more\<close> is appended exactly when there are more than three distinct counted names,
  with \<open>N\<close> their number minus three. The clause is one of the parts that the summary
  joins. When no tool use has an empty name, the counted names are the names of the items.
\<close>

theorem tool_clause_default:
  assumes "list_ex isToolUse internalProcessing"
  shows "toolPart internalProcessing =
     iconTools @ '' '' @ showNat (length (itemNames internalProcessing)) @ '' tool''
       @ plural (length (itemNames internalProcessing)) @ '': ''
       @ join '', '' (map (renderName (countedNames internalProcessing))
                        (take 3 (firstSeen (countedNames internalProcessing))))
       @ (if length (firstSeen (countedNames internalProcessing)) > 3
          then '' +'' @ showNat (length (firstSeen (countedNames internalProcessing)) - 3)
                 @ '' more''
          else [])
   \<and> (\<exists>before after.
         generateProcessingSummary internalProcessing subsequentToolResults assistantMessageCount
           = join '', '' (before @ [toolPart internalProcessing] @ after))
   \<and> ([] \<notin> set (itemNames internalProcessing)
         \<longrightarrow> countedNames internalProcessing = itemNames internalProcessing)"
proof (intro conjI)
  show "toolPart internalProcessing =
     iconTools @ '' '' @ showNat (length (itemNames internalProcessing)) @ '' tool''
       @ plural (length (itemNames internalProcessing)) @ '': ''
       @ join '', '' (map (renderName (countedNames internalProcessing))
                        (take 3 (firstSeen (countedNames internalProcessing))))
       @ (if length (firstSeen (countedNames internalProcessing)) > 3
          then '' +'' @ showNat (length (firstSeen (countedNames internalProcessing)) - 3)
                 @ '' more''
          else [])"
    using toolPart_eq[of internalProcessing]
    unfolding toolNames_countedNames toolCount_itemNames .
next
  define A where "A = (if assistantMessageCount > 1
                    then [iconMessages @ '' '' @ showNat assistantMessageCount
                            @ '' assistant messages'']
                    else [])"
  define B where "B = (if length (filter isThinking internalProcessing) > 0
                    then [iconThinking @ '' '' @ showNat (length (filter isThinking internalProcessing))
                            @ '' thinking step'' @ plural (length (filter isThinking internalProcessing))]
                    else [])"
  define D where "D = (if length (filter isText internalProcessing) > 0
                    then [iconText @ '' '' @ showNat (length (filter isText internalProcessing))
                            @ '' intermediate response'' @ plural (length (filter isText internalProcessing))]
                    else [])"
  define E where "E = (if length subsequentToolResults > 0
                    then [iconResults @ '' '' @ showNat (length subsequentToolResults)
                            @ '' result'' @ plural (length subsequentToolResults)]
                    else [])"
  from assms have pos: "length (filter isToolUse internalProcessing) > 0"
    by (auto simp: list_ex_iff filter_empty_conv)
  have "generateProcessingSummary internalProcessing subsequentToolResults assistantMessageCount
          = join '', '' ((A @ B) @ [toolPart internalProcessing] @ (D @ E))"
    unfolding generateProcessingSummary_def Let_def A_def B_def D_def E_def
    using pos by simp
  then show "\<exists>before after.
         generateProcessingSummary internalProcessing subsequentToolResults assistantMessageCount
           = join '', '' (before @ [toolPart internalProcessing] @ after)"
    by blast
next
  show "[] \<notin> set (itemNames internalProcessing)
         \<longrightarrow> countedNames internalProcessing = itemNames internalProcessing"
    using countedNames_plain by blast
qed

theorem tool_clause_default_witness:
  "toolPart [ToolUse ''1'' ''Read'' JNull, ToolUse ''2'' [] JNull,
             ThinkingContent ''hm'', ToolUse ''3'' ''Read'' JNull, ToolUse ''4'' ''Unknown'' JNull,
             ToolUse ''5'' ''Edit'' JNull, ToolUse ''6'' ''Bash'' JNull]
     = iconTools @ '' 6 tools: Read(2), Unknown(2), Edit +1 more''"
proof -
  let ?ip = "[ToolUse ''1'' ''Read'' JNull, ToolUse ''2'' [] JNull,
             ThinkingContent ''hm'', ToolUse ''3'' ''Read'' JNull, ToolUse ''4'' ''Unknown'' JNull,
             ToolUse ''5'' ''Edit'' JNull, ToolUse ''6'' ''Bash'' JNull]"
  have h: "list_ex isToolUse ?ip" by simp
  have rhs: "iconTools @ '' '' @ showNat (length (itemNames ?ip)) @ '' tool''
       @ plural (length (itemNames ?ip)) @ '': ''
       @ join '', '' (map (renderName (countedNames ?ip)) (take 3 (firstSeen (countedNames ?ip))))
       @ (if length (firstSeen (countedNames ?ip)) > 3
          then '' +'' @ showNat (length (firstSeen (countedNames ?ip)) - 3) @ '' more''
          else [])
     = iconTools @ '' 6 tools: Read(2), Unknown(2), Edit +1 more''"
    by code_simp
  from tool_clause_default[OF h, of "[]" 1]
  have "toolPart ?ip =
     iconTools @ '' '' @ showNat (length (itemNames ?ip)) @ '' tool''
       @ plural (length (itemNames ?ip)) @ '': ''
       @ join '', '' (map (renderName (countedNames ?ip)) (take 3 (firstSeen (countedNames ?ip))))
       @ (if length (firstSeen (countedNames ?ip)) > 3
          then '' +'' @ showNat (length (firstSeen (countedNames ?ip)) - 3) @ '' more''
          else [])"
    by blast
  from this rhs show ?thesis by (rule trans)
qed

text \<open>
  The claim C6 as stated, on the names that the items carry, fails on tool uses named
  \<^verbatim>\<open>''\<close>, \<^verbatim>\<open>Unknown\<close>, \<^verbatim>\<open>A\<close> and \<^verbatim>\<open>B\<close>: these are four distinct names, each
  occurring once, and the clause shows \<^verbatim>\<open>Unknown(2), A, B\<close> without a suffix.
\<close>

theorem tool_clause_counterexample:
  "firstSeen (itemNames [ToolUse ''1'' [] JNull, ToolUse ''2'' ''Unknown'' JNull,
                         ToolUse ''3'' ''A'' JNull, ToolUse ''4'' ''B'' JNull])
     = [[], ''Unknown'', ''A'', ''B'']
   \<and> toolPart [ToolUse ''1'' [] JNull, ToolUse ''2'' ''Unknown'' JNull,
               ToolUse ''3'' ''A'' JNull, ToolUse ''4'' ''B'' JNull]
     = iconTools @ '' 4 tools: Unknown(2), A, B''"
  by code_simp

end
